theory Spec2Isabelle
  imports
    Main
    "HOL-Library.Char_ord"
    "HOL-Library.List_Lexorder"
    "HOL-Library.Product_Lexorder"
begin

section \<open>The demo data pipeline of \<^verbatim>\<open>app.py\<close>\<close>

text \<open>
  The program is a Streamlit page. Its only computing code is \<^verbatim>\<open>make_demo_df\<close>
  (lines 96-106), which builds a pandas table from a seeded numpy generator, and four
  aggregations of that table (lines 134, 160-163, 178 and 191-194). The table is a list
  of rows; every exception of the source is a value \<open>Inl e\<close>.
\<close>

subsection \<open>Errors\<close>

datatype error = ValueError | IndexError | OverflowError | OutOfBoundsDatetime

subsection \<open>The numeric library\<close>

text \<open>
  numpy is not part of the repository. What the program needs of it is a record of
  operations: the generator state built from a seed (\<^verbatim>\<open>SeedSequence\<close> and the bit
  generator behind \<^verbatim>\<open>default_rng\<close>), one bounded draw that returns a value and the next
  state, the double quotient of two integers and the rounding of a double to a number of
  decimals. Doubles are an abstract type \<open>'f\<close>.
\<close>

record ('g, 'f) numpy =
  seed_state :: "nat \<Rightarrow> 'g"
  next_bounded :: "int \<Rightarrow> int \<Rightarrow> 'g \<Rightarrow> int \<times> 'g"
  fdiv :: "int \<Rightarrow> int \<Rightarrow> 'f"
  around :: "nat \<Rightarrow> 'f \<Rightarrow> 'f"

text \<open>
  The documented contract of \<^verbatim>\<open>Generator.integers(low, high)\<close>: the value drawn lies
  in the half-open interval from \<open>low\<close> to \<open>high\<close>.
\<close>

definition bounded_ok :: "('g, 'f) numpy \<Rightarrow> bool" where
  "bounded_ok np \<longleftrightarrow>
     (\<forall>low high g. low < high \<longrightarrow>
        low \<le> fst (next_bounded np low high g) \<and> fst (next_bounded np low high g) < high)"

text \<open>
  \<^verbatim>\<open>np.random.default_rng(seed)\<close>: an integer seed must be non-negative; without a seed
  (\<^verbatim>\<open>None\<close>) the state comes from the entropy of the operating system, which is the
  third argument here.
\<close>

definition default_rng :: "('g, 'f) numpy \<Rightarrow> int option \<Rightarrow> nat \<Rightarrow> error + 'g" where
  "default_rng np seed entropy =
     (case seed of
        None \<Rightarrow> Inr (seed_state np entropy)
      | Some s \<Rightarrow> if s < 0 then Inl ValueError else Inr (seed_state np (nat s)))"

primrec draws :: "('g, 'f) numpy \<Rightarrow> int \<Rightarrow> int \<Rightarrow> nat \<Rightarrow> 'g \<Rightarrow> int list \<times> 'g" where
  "draws np low high 0 g = ([], g)"
| "draws np low high (Suc k) g =
     (case next_bounded np low high g of
        (v, g') \<Rightarrow> (case draws np low high k g' of (vs, g'') \<Rightarrow> (v # vs, g'')))"

text \<open>
  \<^verbatim>\<open>rng.integers(low, high, size)\<close>: an empty array for size 0, an error for an empty
  interval or a negative size, and \<open>size\<close> draws in sequence otherwise.
\<close>

definition integers ::
  "('g, 'f) numpy \<Rightarrow> 'g \<Rightarrow> int \<Rightarrow> int \<Rightarrow> int \<Rightarrow> error + (int list \<times> 'g)" where
  "integers np g low high sz =
     (if sz = 0 then Inr ([], g)
      else if high \<le> low \<or> sz < 0 then Inl ValueError
      else Inr (draws np low high (nat sz) g))"

text \<open>Indexing an array: a negative index counts from the end, any other index out of
  range raises.\<close>

definition getitem :: "'a list \<Rightarrow> int \<Rightarrow> error + 'a" where
  "getitem a i =
     (let len = int (length a); j = (if i < 0 then len + i else i)
      in if 0 \<le> j \<and> j < len then Inr (a ! nat j) else Inl IndexError)"

primrec getitems :: "'a list \<Rightarrow> int list \<Rightarrow> error + 'a list" where
  "getitems a [] = Inr []"
| "getitems a (i # idx) =
     (case getitem a i of
        Inl e \<Rightarrow> Inl e
      | Inr x \<Rightarrow> (case getitems a idx of Inl e \<Rightarrow> Inl e | Inr xs \<Rightarrow> Inr (x # xs)))"

text \<open>
  \<^verbatim>\<open>rng.choice(a, size)\<close> with replacement and no weights: \<open>size\<close> indices drawn below
  the length of \<open>a\<close>, then the entries at these indices.
\<close>

definition choice ::
  "('g, 'f) numpy \<Rightarrow> 'g \<Rightarrow> 'a list \<Rightarrow> int \<Rightarrow> error + ('a list \<times> 'g)" where
  "choice np g a sz =
     (case integers np g 0 (int (length a)) sz of
        Inl e \<Rightarrow> Inl e
      | Inr (idx, g') \<Rightarrow> (case getitems a idx of Inl e \<Rightarrow> Inl e | Inr xs \<Rightarrow> Inr (xs, g')))"

text \<open>
  The quotient of two integer columns is a double: dividing by zero raises nothing, it
  gives an infinity, or not-a-number for \<open>0 / 0\<close>. Rounding leaves these three as they
  are.
\<close>

datatype 'f float64 = Finite 'f | PosInf | NegInf | NaN

definition true_divide :: "('g, 'f) numpy \<Rightarrow> int \<Rightarrow> int \<Rightarrow> 'f float64" where
  "true_divide np a b =
     (if b = 0 then (if 0 < a then PosInf else if a < 0 then NegInf else NaN)
      else Finite (fdiv np a b))"

fun round_float :: "('g, 'f) numpy \<Rightarrow> nat \<Rightarrow> 'f float64 \<Rightarrow> 'f float64" where
  "round_float np d (Finite x) = Finite (around np d x)"
| "round_float np d PosInf = PosInf"
| "round_float np d NegInf = NegInf"
| "round_float np d NaN = NaN"

subsection \<open>Calendar dates\<close>

text \<open>
  A date is its number of days since 1970-01-01. A pandas timestamp counts the
  nanoseconds since that day in a signed 64-bit integer (\<open>i8max\<close> is the largest), so
  the dates of a range must stay within that count. The two conversions are the usual
  ones of the proleptic Gregorian calendar. The 64-bit range of the sums of the
  aggregations is not modelled: the sums of a generated table stay far below it.
\<close>

definition days_from_civil :: "int \<Rightarrow> int \<Rightarrow> int \<Rightarrow> int" where
  "days_from_civil y m d =
     (let y' = (if m \<le> 2 then y - 1 else y);
          era = y' div 400;
          yoe = y' - era * 400;
          doy = (153 * (if 2 < m then m - 3 else m + 9) + 2) div 5 + d - 1;
          doe = yoe * 365 + yoe div 4 - yoe div 100 + doy
      in era * 146097 + doe - 719468)"

definition year_of :: "int \<Rightarrow> int" where
  "year_of z =
     (let z' = z + 719468;
          era = z' div 146097;
          doe = z' - era * 146097;
          yoe = (doe - doe div 1460 + doe div 36524 - doe div 146096) div 365;
          doy = doe - (365 * yoe + yoe div 4 - yoe div 100);
          mp = (5 * doy + 2) div 153
      in yoe + era * 400 + (if mp < 10 then 0 else 1))"

definition i8max :: int where
  "i8max = 9223372036854775807"

definition ns_per_day :: int where
  "ns_per_day = 86400000000000"

text \<open>
  \<^verbatim>\<open>pd.date_range(start, periods=n, freq="D")\<close>: \<open>n\<close> consecutive days from
  \<open>start\<close>, as pandas 2 computes them over numpy 2 (the source names no versions).
  The number of periods is first converted to an unsigned 64-bit integer, which refuses
  a negative one (\<open>OverflowError\<close>). The last date of the range, \<open>n - 1\<close> days after
  the start, must then fit the 64-bit count of nanoseconds (the end of the range, one
  step further, may pass it); otherwise the call raises \<open>OutOfBoundsDatetime\<close>.
\<close>

definition date_range :: "int \<Rightarrow> int \<Rightarrow> error + int list" where
  "date_range start periods =
     (if periods < 0 then Inl OverflowError
      else if i8max < (start + periods - 1) * ns_per_day then Inl OutOfBoundsDatetime
      else Inr (map (\<lambda>i. start + int i) [0..<nat periods]))"

subsection \<open>The table\<close>

record row0 =
  date :: int
  region :: string
  impressions :: int
  uniques :: int
  format :: string

record 'f row = row0 +
  freq :: "'f float64"

definition regions :: "string list" where
  "regions = [''Lisboa'', ''Porto'', ''Matosinhos'', ''Set'' @ [CHR 0xC3, CHR 0xBA] @ ''bal'']"

definition formats :: "string list" where
  "formats = [''Mupi'', ''Abrigo'', ''Digital'']"

text \<open>\<^verbatim>\<open>pd.DataFrame({...})\<close>: the columns must have one length; row \<open>i\<close> holds entry
  \<open>i\<close> of each.\<close>

definition DataFrame ::
  "int list \<Rightarrow> string list \<Rightarrow> int list \<Rightarrow> int list \<Rightarrow> string list \<Rightarrow> error + row0 list" where
  "DataFrame ds rs ims us fs =
     (if length rs = length ds \<and> length ims = length ds \<and> length us = length ds
         \<and> length fs = length ds
      then Inr (map (\<lambda>i. \<lparr>date = ds ! i, region = rs ! i, impressions = ims ! i,
                          uniques = us ! i, format = fs ! i\<rparr>) [0..<length ds])
      else Inl ValueError)"

text \<open>Line 105: \<^verbatim>\<open>df["freq"] = (df["impressions"] / df["uniques"]).round(2)\<close>.\<close>

definition assign_freq :: "('g, 'f) numpy \<Rightarrow> row0 list \<Rightarrow> 'f row list" where
  "assign_freq np df =
     map (\<lambda>r. \<lparr>date = date r, region = region r, impressions = impressions r,
               uniques = uniques r, format = format r,
               freq = round_float np 2 (true_divide np (impressions r) (uniques r))\<rparr>) df"

text \<open>
  \<^verbatim>\<open>make_demo_df(n, seed)\<close>, lines 96-106. The columns are drawn from one generator
  in the order of the source: region, impressions, uniques, format.
\<close>

definition make_demo_df ::
  "('g, 'f) numpy \<Rightarrow> int \<Rightarrow> int option \<Rightarrow> nat \<Rightarrow> error + 'f row list" where
  "make_demo_df np n seed entropy =
     (case default_rng np seed entropy of Inl e \<Rightarrow> Inl e | Inr rng \<Rightarrow>
      case date_range (days_from_civil 2024 1 1) n of Inl e \<Rightarrow> Inl e | Inr ds \<Rightarrow>
      case choice np rng regions n of Inl e \<Rightarrow> Inl e | Inr (rs, rng1) \<Rightarrow>
      case integers np rng1 1000 50000 n of Inl e \<Rightarrow> Inl e | Inr (ims, rng2) \<Rightarrow>
      case integers np rng2 500 20000 n of Inl e \<Rightarrow> Inl e | Inr (us, rng3) \<Rightarrow>
      case choice np rng3 formats n of Inl e \<Rightarrow> Inl e | Inr (fs, rng4) \<Rightarrow>
      case DataFrame ds rs ims us fs of Inl e \<Rightarrow> Inl e | Inr df \<Rightarrow>
      Inr (assign_freq np df))"

text \<open>\<^verbatim>\<open>load_data()\<close>, lines 108-110: the table of the default arguments.\<close>

definition load_data :: "('g, 'f) numpy \<Rightarrow> nat \<Rightarrow> error + 'f row list" where
  "load_data np entropy = make_demo_df np 200 (Some 7) entropy"

subsection \<open>Aggregations\<close>

text \<open>
  \<^verbatim>\<open>df.groupby(key)\<close>: one group for each distinct key, the keys in ascending order,
  each group holding the rows of its key in their order in the table.
\<close>

definition group_keys :: "('r \<Rightarrow> 'k::linorder) \<Rightarrow> 'r list \<Rightarrow> 'k list" where
  "group_keys key df = sort (remdups (map key df))"

definition groupby :: "('r \<Rightarrow> 'k::linorder) \<Rightarrow> 'r list \<Rightarrow> ('k \<times> 'r list) list" where
  "groupby key df = map (\<lambda>k. (k, filter (\<lambda>r. key r = k) df)) (group_keys key df)"

text \<open>Line 134: \<^verbatim>\<open>df.groupby("date")["impressions"].sum().reset_index()\<close>.\<close>

definition daily :: "'f row list \<Rightarrow> (int \<times> int) list" where
  "daily df = map (\<lambda>(k, g). (k, sum_list (map impressions g))) (groupby date df)"

text \<open>Lines 160-163: the sums of impressions and uniques for each pair of region and
  format.\<close>

definition agg :: "'f row list \<Rightarrow> ((string \<times> string) \<times> int \<times> int) list" where
  "agg df =
     map (\<lambda>(k, g). (k, sum_list (map impressions g), sum_list (map uniques g)))
       (groupby (\<lambda>r. (region r, format r)) df)"

text \<open>
  Line 178: the hour of a row is its index modulo 24; the mean of a group is the double
  quotient of its sum and its size.
\<close>

definition mean :: "('g, 'f) numpy \<Rightarrow> int list \<Rightarrow> 'f float64" where
  "mean np xs = true_divide np (sum_list xs) (int (length xs))"

definition hourly :: "('g, 'f) numpy \<Rightarrow> 'f row list \<Rightarrow> (nat \<times> 'f float64) list" where
  "hourly np df =
     map (\<lambda>(h, g). (h, mean np (map (\<lambda>(i, r). uniques r) g)))
       (groupby (\<lambda>(i, r). i mod 24) (zip [0..<length df] df))"

text \<open>
  Lines 191-194. The ISO week of a date is the week of its year that holds the Thursday
  of the date's week, Monday being the first day; the groups are keyed by the week
  number alone, as in the source.
\<close>

definition isoweekday :: "int \<Rightarrow> int" where
  "isoweekday z = (z + 3) mod 7 + 1"

definition isocalendar_week :: "int \<Rightarrow> int" where
  "isocalendar_week z =
     (let th = z - isoweekday z + 4
      in (th - days_from_civil (year_of th) 1 1) div 7 + 1)"

definition weekly :: "'f row list \<Rightarrow> (int \<times> int) list" where
  "weekly df =
     map (\<lambda>(k, g). (k, sum_list (map impressions g)))
       (groupby (\<lambda>r. isocalendar_week (date r)) df)"

text \<open>
  \<^verbatim>\<open>rolling(4, min_periods=1).mean().round()\<close>: row \<open>i\<close> gets the mean of the window
  of the rows \<open>i - 3\<close> to \<open>i\<close> that exist, rounded to an integer. The source computes
  on doubles. While every sum of a window is at most \<open>2 ^ 50\<close> in size, the double of
  the sum is the sum itself, its quotient by the 1, 2, 3 or 4 rows of the window is
  nearer to the true quotient than a sixteenth, and rounding the double (a tie going
  to the even neighbour) gives the integer that rounding the true quotient gives: this
  is \<open>rint_div\<close>. Beyond that size the doubles are no longer exact and the model gives
  no value (\<open>None\<close>).
\<close>

definition rint_div :: "int \<Rightarrow> int \<Rightarrow> int" where
  "rint_div a b =
     (let q = a div b; r = a mod b
      in if 2 * r < b then q else if b < 2 * r then q + 1
         else if even q then q else q + 1)"

definition rolling_window :: "nat \<Rightarrow> nat \<Rightarrow> 'a list \<Rightarrow> 'a list" where
  "rolling_window w i xs = drop (Suc i - w) (take (Suc i) xs)"

definition rolling_mean_round :: "int list \<Rightarrow> int list option" where
  "rolling_mean_round xs =
     (if \<forall>x\<in>set xs. 4 * \<bar>x\<bar> \<le> 2 ^ 50
      then Some (map (\<lambda>i. rint_div (sum_list (rolling_window 4 i xs))
                           (int (length (rolling_window 4 i xs)))) [0..<length xs])
      else None)"

definition forecast :: "'f row list \<Rightarrow> int list option" where
  "forecast df = rolling_mean_round (map snd (weekly df))"

text \<open>
  Rounding in the words of the specification: \<open>f\<close> is the quotient of \<open>a\<close> by a
  positive \<open>b\<close> rounded to the nearest integer when \<open>f\<close> is no further than a half from
  the quotient, and is even if it is exactly a half from it.
\<close>

definition nearest_even :: "int \<Rightarrow> int \<Rightarrow> int \<Rightarrow> bool" where
  "nearest_even f a b \<longleftrightarrow> 2 * \<bar>b * f - a\<bar> \<le> b \<and> (2 * \<bar>b * f - a\<bar> = b \<longrightarrow> even f)"

text \<open>
  The bucket of hour \<open>h\<close> in the words of the specification: the uniques of the rows
  whose index is \<open>h\<close> modulo 24, in the order of the table.
\<close>

definition hour_uniques :: "nat \<Rightarrow> 'f row list \<Rightarrow> int list" where
  "hour_uniques h df = map (\<lambda>i. uniques (df ! i)) (filter (\<lambda>i. i mod 24 = h) [0..<length df])"

text \<open>The seeds that \<^verbatim>\<open>default_rng\<close> accepts.\<close>

definition seed_ok :: "int option \<Rightarrow> bool" where
  "seed_ok seed = (case seed of None \<Rightarrow> True | Some s \<Rightarrow> 0 \<le> s)"

subsection \<open>A library instance for evaluation\<close>

text \<open>
  A small linear congruential generator with the interface above; a double is kept as
  the pair of the integers divided.
\<close>

definition lcg_step :: "int \<Rightarrow> int" where
  "lcg_step g = (g * 1103515245 + 12345) mod 2147483648"

definition lcg :: "(int, int \<times> int) numpy" where
  "lcg = \<lparr>seed_state = int,
          next_bounded = (\<lambda>low high g. (low + lcg_step g mod (high - low), lcg_step g)),
          fdiv = (\<lambda>a b. (a, b)),
          around = (\<lambda>d x. x)\<rparr>"

text \<open>The table this instance gives for three rows and seed 7.\<close>

definition demo3 :: "(int \<times> int) row list" where
  "demo3 =
     [\<lparr>date = 19723, region = ''Lisboa'', impressions = 28571,
        uniques = 14762, format = ''Mupi'', freq = Finite (28571, 14762)\<rparr>,
      \<lparr>date = 19724, region = ''Porto'', impressions = 48640,
        uniques = 11087, format = ''Mupi'', freq = Finite (48640, 11087)\<rparr>,
      \<lparr>date = 19725, region = ''Matosinhos'', impressions = 14521,
        uniques = 9296, format = ''Digital'', freq = Finite (14521, 9296)\<rparr>]"

text \<open>The table this instance gives for 22 rows and seed 7: the days of three ISO weeks
  and the first day of a fourth. A region is written as its index in \<open>regions\<close>.\<close>

definition demo22 :: "(int \<times> int) row list" where
  "demo22 =
     map (\<lambda>(d, r, i, u, f). \<lparr>date = d, region = regions ! r, impressions = i, uniques = u,
                            format = f, freq = Finite (i, u)\<rparr>)
       [(19723, 0, 23054, 8332, ''Mupi''), (19724, 1, 37767, 5749, ''Mupi''), (19725, 2, 5660, 17438, ''Abrigo''),
        (19726, 3, 34453, 2331, ''Mupi''), (19727, 0, 22906, 19836, ''Abrigo''), (19728, 1, 28467, 16001, ''Digital''),
        (19729, 2, 48720, 13874, ''Abrigo''), (19730, 3, 14489, 18695, ''Mupi''), (19731, 0, 35726, 15424, ''Abrigo''),
        (19732, 1, 40319, 1449, ''Digital''), (19733, 2, 45596, 16086, ''Mupi''), (19734, 3, 12853, 9675, ''Mupi''),
        (19735, 0, 47538, 18252, ''Abrigo''), (19736, 1, 36259, 12721, ''Mupi''), (19737, 2, 17768, 17022, ''Abrigo''),
        (19738, 3, 19569, 14695, ''Mupi''), (19739, 0, 27086, 5932, ''Digital''), (19740, 1, 7671, 12605, ''Mupi''),
        (19741, 2, 9684, 3618, ''Mupi''), (19742, 3, 44133, 15227, ''Mupi''), (19743, 0, 22714, 13248, ''Digital''),
        (19744, 1, 15675, 15549, ''Mupi'')]"

section \<open>Properties of the generator\<close>

subsection \<open>Draws, indexing and columns\<close>

lemma draws_length: "length (fst (draws np low high k g)) = k"
proof (induction k arbitrary: g)
  case 0
  then show ?case by simp
next
  case (Suc k)
  obtain w g' where step: "next_bounded np low high g = (w, g')" by (cases "next_bounded np low high g")
  obtain vs g'' where rest: "draws np low high k g' = (vs, g'')" by (cases "draws np low high k g'")
  from Suc.IH[of g'] rest have "length vs = k" by simp
  with step rest show ?case by simp
qed

lemma draws_range:
  "bounded_ok np \<Longrightarrow> low < high \<Longrightarrow> v \<in> set (fst (draws np low high k g)) \<Longrightarrow> low \<le> v \<and> v < high"
proof (induction k arbitrary: g)
  case 0
  then show ?case by simp
next
  case (Suc k)
  obtain w g' where step: "next_bounded np low high g = (w, g')" by (cases "next_bounded np low high g")
  obtain vs g'' where rest: "draws np low high k g' = (vs, g'')" by (cases "draws np low high k g'")
  from Suc.prems(1,2) step have w: "low \<le> w \<and> w < high"
    unfolding bounded_ok_def by (metis fst_conv)
  from Suc.prems(3) step rest have "v = w \<or> v \<in> set (fst (draws np low high k g'))" by auto
  with w Suc.IH[OF Suc.prems(1,2)] show ?case by blast
qed

lemma integers_Inr:
  "integers np g low high n = Inr (vs, g') \<Longrightarrow> 0 \<le> n \<and> length vs = nat n"
  using draws_length[of np low high "nat n" g]
  by (auto simp: integers_def split: if_splits)

lemma integers_range:
  "bounded_ok np \<Longrightarrow> low < high \<Longrightarrow> integers np g low high n = Inr (vs, g') \<Longrightarrow> v \<in> set vs
   \<Longrightarrow> low \<le> v \<and> v < high"
  using draws_range[of np low high v "nat n" g]
  by (auto simp: integers_def split: if_splits)

lemma integers_ok:
  "0 \<le> n \<Longrightarrow> low < high \<Longrightarrow> \<exists>vs g'. integers np g low high n = Inr (vs, g')"
  by (cases "draws np low high (nat n) g") (auto simp: integers_def)

lemma integers_neg: "n < 0 \<Longrightarrow> integers np g low high n = Inl ValueError"
  by (simp add: integers_def)

lemma integers_zero: "integers np g low high 0 = Inr ([], g)"
  by (simp add: integers_def)

lemma getitem_Inr: "getitem a i = Inr x \<Longrightarrow> x \<in> set a"
  by (auto simp: getitem_def Let_def split: if_splits)

lemma getitems_Inr: "getitems a idx = Inr xs \<Longrightarrow> length xs = length idx \<and> set xs \<subseteq> set a"
  by (induction idx arbitrary: xs) (auto split: sum.splits dest: getitem_Inr)

lemma getitems_ok:
  "\<forall>i\<in>set idx. 0 \<le> i \<and> i < int (length a) \<Longrightarrow> \<exists>xs. getitems a idx = Inr xs"
  by (induction idx) (auto simp: getitem_def Let_def)

lemma choice_Inr:
  "choice np g a n = Inr (xs, g') \<Longrightarrow> 0 \<le> n \<and> length xs = nat n \<and> set xs \<subseteq> set a"
  by (auto simp: choice_def split: sum.splits prod.splits dest!: integers_Inr getitems_Inr)

lemma choice_ok:
  assumes "bounded_ok np" "0 \<le> n" "a \<noteq> []"
  shows "\<exists>xs g'. choice np g a n = Inr (xs, g')"
proof -
  from assms(3) have pos: "(0::int) < int (length a)" by simp
  from integers_ok[OF assms(2) pos, of np g] obtain idx g' where
    idx: "integers np g 0 (int (length a)) n = Inr (idx, g')" by blast
  from integers_range[OF assms(1) pos idx]
  have "\<forall>i\<in>set idx. 0 \<le> i \<and> i < int (length a)" by blast
  from getitems_ok[OF this] obtain xs where "getitems a idx = Inr xs" by blast
  with idx show ?thesis by (simp add: choice_def)
qed

lemma choice_neg: "n < 0 \<Longrightarrow> choice np g a n = Inl ValueError"
  by (simp add: choice_def integers_neg)

lemma choice_zero: "choice np g a 0 = Inr ([], g)"
  by (simp add: choice_def integers_zero)

lemma date_range_Inr:
  "date_range start n = Inr ds \<Longrightarrow>
     0 \<le> n \<and> (start + n - 1) * ns_per_day \<le> i8max \<and> ds = map (\<lambda>i. start + int i) [0..<nat n]"
  by (auto simp: date_range_def split: if_splits)

lemma start_day: "days_from_civil 2024 1 1 = 19723"
  by code_simp

lemma periods_fit:
  "(days_from_civil 2024 1 1 + n - 1) * ns_per_day \<le> i8max \<longleftrightarrow> n \<le> 87029"
  unfolding start_day ns_per_day_def i8max_def
proof
  assume "(19723 + n - 1) * 86400000000000 \<le> 9223372036854775807"
  then show "n \<le> 87029" by (simp add: algebra_simps)
next
  assume "n \<le> 87029"
  then show "(19723 + n - 1) * 86400000000000 \<le> 9223372036854775807"
    by (simp add: algebra_simps)
qed

lemma date_range_start:
  "date_range (days_from_civil 2024 1 1) n =
     (if n < 0 then Inl OverflowError
      else if 87029 < n then Inl OutOfBoundsDatetime
      else Inr (map (\<lambda>i. days_from_civil 2024 1 1 + int i) [0..<nat n]))"
proof -
  have "i8max < (days_from_civil 2024 1 1 + n - 1) * ns_per_day \<longleftrightarrow> 87029 < n"
    using periods_fit[of n] by linarith
  then show ?thesis by (simp add: date_range_def)
qed

lemma DataFrame_Inr:
  "DataFrame ds rs ims us fs = Inr rows \<Longrightarrow>
     length rs = length ds \<and> length ims = length ds \<and> length us = length ds \<and>
     length fs = length ds \<and>
     rows = map (\<lambda>i. \<lparr>date = ds ! i, region = rs ! i, impressions = ims ! i,
                          uniques = us ! i, format = fs ! i\<rparr>) [0..<length ds]"
  by (auto simp: DataFrame_def split: if_splits)

lemma make_demo_df_Inr:
  assumes "make_demo_df np n seed e = Inr df"
  obtains g ds rs g1 ims g2 us g3 fs g4 rows where
    "default_rng np seed e = Inr g"
    "date_range (days_from_civil 2024 1 1) n = Inr ds"
    "choice np g regions n = Inr (rs, g1)"
    "integers np g1 1000 50000 n = Inr (ims, g2)"
    "integers np g2 500 20000 n = Inr (us, g3)"
    "choice np g3 formats n = Inr (fs, g4)"
    "DataFrame ds rs ims us fs = Inr rows"
    "df = assign_freq np rows"
  using assms unfolding make_demo_df_def
  by (auto split: sum.splits prod.splits)

lemma make_demo_df_rows:
  assumes "make_demo_df np n seed e = Inr df"
  obtains rs ims us fs where
    "0 \<le> n" "length rs = nat n" "length ims = nat n" "length us = nat n" "length fs = nat n"
    "set rs \<subseteq> set regions" "set fs \<subseteq> set formats"
    "bounded_ok np \<longrightarrow> (\<forall>v\<in>set ims. 1000 \<le> v \<and> v < 50000)"
    "bounded_ok np \<longrightarrow> (\<forall>v\<in>set us. 500 \<le> v \<and> v < 20000)"
    "df = map (\<lambda>i. \<lparr>date = days_from_civil 2024 1 1 + int i, region = rs ! i,
                      impressions = ims ! i, uniques = us ! i, format = fs ! i,
                      freq = round_float np 2 (true_divide np (ims ! i) (us ! i))\<rparr>)
            [0..<nat n]"
proof -
  from assms obtain g ds rs g1 ims g2 us g3 fs g4 rows where
    d: "date_range (days_from_civil 2024 1 1) n = Inr ds" and
    r: "choice np g regions n = Inr (rs, g1)" and
    i: "integers np g1 1000 50000 n = Inr (ims, g2)" and
    u: "integers np g2 500 20000 n = Inr (us, g3)" and
    f: "choice np g3 formats n = Inr (fs, g4)" and
    fr: "DataFrame ds rs ims us fs = Inr rows" and
    df: "df = assign_freq np rows"
    by (rule make_demo_df_Inr)
  from date_range_Inr[OF d] have n: "0 \<le> n"
    and ds: "ds = map (\<lambda>i. days_from_civil 2024 1 1 + int i) [0..<nat n]" by simp_all
  from ds have lds: "length ds = nat n" by simp
  from choice_Inr[OF r] have rs: "length rs = nat n" "set rs \<subseteq> set regions" by simp_all
  from choice_Inr[OF f] have fs: "length fs = nat n" "set fs \<subseteq> set formats" by simp_all
  from integers_Inr[OF i] have li: "length ims = nat n" by simp
  from integers_Inr[OF u] have lu: "length us = nat n" by simp
  have ri: "bounded_ok np \<longrightarrow> (\<forall>v\<in>set ims. 1000 \<le> v \<and> v < 50000)"
    using integers_range[OF _ _ i] by simp
  have ru: "bounded_ok np \<longrightarrow> (\<forall>v\<in>set us. 500 \<le> v \<and> v < 20000)"
    using integers_range[OF _ _ u] by simp
  from DataFrame_Inr[OF fr] lds have
    rows: "rows = map (\<lambda>i. \<lparr>date = ds ! i, region = rs ! i, impressions = ims ! i,
                          uniques = us ! i, format = fs ! i\<rparr>) [0..<nat n]" by simp
  have "df = map (\<lambda>i. \<lparr>date = days_from_civil 2024 1 1 + int i, region = rs ! i,
                      impressions = ims ! i, uniques = us ! i, format = fs ! i,
                      freq = round_float np 2 (true_divide np (ims ! i) (us ! i))\<rparr>)
            [0..<nat n]"
    unfolding df rows assign_freq_def by (simp add: ds)
  with n rs fs li lu ri ru that show ?thesis by blast
qed

lemma make_demo_df_periods:
  assumes "make_demo_df np n seed e = Inr df"
  shows "0 \<le> n \<and> n \<le> 87029"
proof -
  from assms obtain ds where "date_range (days_from_civil 2024 1 1) n = Inr ds"
    by (rule make_demo_df_Inr)
  from date_range_Inr[OF this] show ?thesis by (simp add: periods_fit)
qed

lemma make_demo_df_ok:
  assumes "bounded_ok np" "0 \<le> n" "n \<le> 87029" "seed_ok seed"
  shows "\<exists>df. make_demo_df np n seed e = Inr df"
proof -
  from assms(4) obtain g where g: "default_rng np seed e = Inr g"
    by (auto simp: default_rng_def seed_ok_def split: option.splits)
  from assms(2,3) obtain ds where d: "date_range (days_from_civil 2024 1 1) n = Inr ds"
    and lds: "length ds = nat n" by (simp add: date_range_start)
  from choice_ok[OF assms(1,2), of regions g] obtain rs g1 where
    r: "choice np g regions n = Inr (rs, g1)" by (auto simp: regions_def)
  from integers_ok[OF assms(2), of 1000 50000 np g1] obtain ims g2 where
    i: "integers np g1 1000 50000 n = Inr (ims, g2)" by auto
  from integers_ok[OF assms(2), of 500 20000 np g2] obtain us g3 where
    u: "integers np g2 500 20000 n = Inr (us, g3)" by auto
  from choice_ok[OF assms(1,2), of formats g3] obtain fs g4 where
    f: "choice np g3 formats n = Inr (fs, g4)" by (auto simp: formats_def)
  from choice_Inr[OF r] choice_Inr[OF f] integers_Inr[OF i] integers_Inr[OF u] lds
  obtain rows where "DataFrame ds rs ims us fs = Inr rows"
    by (simp add: DataFrame_def)
  with g d r i u f show ?thesis by (simp add: make_demo_df_def)
qed

lemma lcg_bounded_ok: "bounded_ok lcg"
proof -
  have "low \<le> low + x mod (high - low) \<and> low + x mod (high - low) < high"
    if "low < high" for low high x :: int
    using that pos_mod_bound[of "high - low" x] pos_mod_sign[of "high - low" x] by linarith
  then show ?thesis by (simp add: bounded_ok_def lcg_def)
qed

lemma lcg_demo_3: "make_demo_df lcg 3 (Some 7) e = Inr demo3"
  unfolding demo3_def by code_simp

section \<open>The claims about the generator\<close>

subsection \<open>Row counts below one\<close>

text \<open>
  C1, as the code has it. \<^verbatim>\<open>make_demo_df\<close> checks none of its arguments and has no
  condition of its own for a bad row count. With \<open>n = 0\<close> and a seed the generator
  accepts, it returns the table with no rows. With \<open>n < 0\<close> it returns no table: line
  97 refuses a negative seed (\<open>ValueError\<close>), and otherwise \<^verbatim>\<open>pd.date_range\<close> at line
  99 refuses the negative number of periods (\<open>OverflowError\<close>) before a row is drawn.
\<close>

theorem make_demo_df_below_one:
  "n < 1 \<Longrightarrow>
   make_demo_df np n seed e =
     (if \<not> seed_ok seed then Inl ValueError
      else if n < 0 then Inl OverflowError else Inr [])"
proof (cases "n < 0")
  case True
  then show ?thesis
    by (simp add: make_demo_df_def default_rng_def seed_ok_def date_range_start
        split: option.splits)
next
  case False
  assume "n < 1"
  with False have "n = 0" by simp
  then show ?thesis
    by (simp add: make_demo_df_def default_rng_def seed_ok_def date_range_start
        choice_zero integers_zero DataFrame_def assign_freq_def split: option.splits)
qed

theorem make_demo_df_below_one_witness:
  "(- 3::int) < 1 \<and> make_demo_df lcg (- 3) (Some 7) 0 = Inl OverflowError
   \<and> (0::int) < 1 \<and> make_demo_df lcg 0 None 5 = Inr []"
  using make_demo_df_below_one[of "- 3" lcg "Some 7" 0] make_demo_df_below_one[of 0 lcg None 5]
  by (simp add: seed_ok_def)

text \<open>With the default seed and no rows asked for, the call returns an empty table: it
  does not fail.\<close>

theorem make_demo_df_zero_is_empty: "make_demo_df lcg 0 (Some 7) 0 = Inr []"
  by (simp add: make_demo_df_def default_rng_def date_range_start
      choice_zero integers_zero DataFrame_def assign_freq_def)

subsection \<open>Determinism\<close>

text \<open>
  C2. For every \<open>n \<ge> 1\<close> and every integer seed, two invocations of
  \<^verbatim>\<open>make_demo_df(n, seed)\<close> give the same result, every field of every row included:
  the only thing that differs between two invocations is the entropy of the operating
  system, and a seeded generator does not read it.
\<close>

theorem make_demo_df_deterministic:
  "1 \<le> n \<Longrightarrow> make_demo_df np n (Some seed) e1 = make_demo_df np n (Some seed) e2"
  by (simp add: make_demo_df_def default_rng_def)

theorem make_demo_df_deterministic_witness:
  "(1::int) \<le> 3 \<and> make_demo_df lcg 3 (Some 7) 0 = make_demo_df lcg 3 (Some 7) 1"
  using make_demo_df_deterministic[of 3 lcg 7 0 1] by simp

subsection \<open>Row count and dates\<close>

text \<open>
  C3, as the code has it. For every \<open>n\<close> from 1 to 87029, the numbers of rows whose
  last date a 64-bit count of nanoseconds can hold (2262-04-11 is the last such day),
  and every seed that is not negative, \<^verbatim>\<open>make_demo_df(n, seed)\<close> returns exactly
  \<open>n\<close> rows; the first date is 2024-01-01, each further date is the day after the one
  before it, and so the dates ascend strictly. The generator is assumed to keep the
  contract of its bounded draw.
\<close>

theorem make_demo_df_dates:
  assumes "bounded_ok np" "1 \<le> n" "n \<le> 87029" "0 \<le> seed"
  shows "\<exists>df. make_demo_df np n (Some seed) e = Inr df \<and> length df = nat n
           \<and> date (df ! 0) = days_from_civil 2024 1 1
           \<and> (\<forall>i. Suc i < length df \<longrightarrow> date (df ! Suc i) = date (df ! i) + 1)
           \<and> sorted_wrt (<) (map date df)"
proof -
  from assms have "\<exists>df. make_demo_df np n (Some seed) e = Inr df"
    by (intro make_demo_df_ok) (simp_all add: seed_ok_def)
  then obtain df where ok: "make_demo_df np n (Some seed) e = Inr df" ..
  from ok obtain rs ims us fs where
    df: "df = map (\<lambda>i. \<lparr>date = days_from_civil 2024 1 1 + int i, region = rs ! i,
                      impressions = ims ! i, uniques = us ! i, format = fs ! i,
                      freq = round_float np 2 (true_divide np (ims ! i) (us ! i))\<rparr>)
            [0..<nat n]"
    by (rule make_demo_df_rows)
  have len: "length df = nat n" by (simp add: df)
  have nth: "date (df ! i) = days_from_civil 2024 1 1 + int i" if "i < nat n" for i
    using that by (simp add: df)
  from assms(2) have pos: "0 < nat n" by simp
  have first: "date (df ! 0) = days_from_civil 2024 1 1" using nth[OF pos] by simp
  have step: "\<forall>i. Suc i < length df \<longrightarrow> date (df ! Suc i) = date (df ! i) + 1"
    using nth len by simp
  have "sorted_wrt (<) (map date df)"
    unfolding sorted_wrt_iff_nth_less using nth len by simp
  with ok len first step show ?thesis by blast
qed

theorem make_demo_df_dates_witness:
  "bounded_ok lcg \<and> (1::int) \<le> 3 \<and> (3::int) \<le> 87029 \<and> (0::int) \<le> 7
   \<and> (\<exists>df. make_demo_df lcg 3 (Some 7) 0 = Inr df \<and> length df = nat 3
           \<and> date (df ! 0) = days_from_civil 2024 1 1
           \<and> (\<forall>i. Suc i < length df \<longrightarrow> date (df ! Suc i) = date (df ! i) + 1)
           \<and> sorted_wrt (<) (map date df))"
  using make_demo_df_dates[OF lcg_bounded_ok, of 3 7 0] lcg_bounded_ok by simp

text \<open>
  Two calls with \<open>n \<ge> 1\<close> that return no table. A negative seed is refused by
  \<^verbatim>\<open>default_rng\<close> at line 97, whatever \<open>n\<close> is. The dates of 100000 rows run to the
  year 2297, past the range of a timestamp, and line 99 raises.
\<close>

theorem make_demo_df_no_table:
  "make_demo_df lcg 1 (Some (- 1)) 0 = Inl ValueError
   \<and> make_demo_df lcg 100000 (Some 7) 0 = Inl OutOfBoundsDatetime"
  by (simp add: make_demo_df_def default_rng_def date_range_start)

text \<open>The bound of C3 is exact: the first row count that line 99 refuses is 87030.\<close>

lemma make_demo_df_out_of_bounds:
  "make_demo_df lcg 87030 (Some 7) 0 = Inl OutOfBoundsDatetime"
  by (simp add: make_demo_df_def default_rng_def date_range_start)

subsection \<open>Ranges\<close>

text \<open>
  C4. Every row of a table that \<^verbatim>\<open>make_demo_df(n, seed)\<close> returns, for every \<open>n\<close> and
  every seed, has \<open>1000 \<le> impressions < 50000\<close>, \<open>500 \<le> uniques < 20000\<close>, a region
  among the four of the source and a format among its three. The generator is assumed
  to keep the contract of its bounded draw.
\<close>

theorem make_demo_df_ranges:
  assumes "bounded_ok np" "make_demo_df np n seed e = Inr df" "r \<in> set df"
  shows "1000 \<le> impressions r \<and> impressions r < 50000
         \<and> 500 \<le> uniques r \<and> uniques r < 20000
         \<and> region r \<in> set regions \<and> format r \<in> set formats"
proof -
  from assms(2) obtain rs ims us fs where
    l: "length rs = nat n" "length ims = nat n" "length us = nat n" "length fs = nat n" and
    s: "set rs \<subseteq> set regions" "set fs \<subseteq> set formats" and
    ri: "bounded_ok np \<longrightarrow> (\<forall>v\<in>set ims. 1000 \<le> v \<and> v < 50000)" and
    ru: "bounded_ok np \<longrightarrow> (\<forall>v\<in>set us. 500 \<le> v \<and> v < 20000)" and
    df: "df = map (\<lambda>i. \<lparr>date = days_from_civil 2024 1 1 + int i, region = rs ! i,
                      impressions = ims ! i, uniques = us ! i, format = fs ! i,
                      freq = round_float np 2 (true_divide np (ims ! i) (us ! i))\<rparr>)
            [0..<nat n]"
    by (rule make_demo_df_rows)
  from assms(3) df obtain i where i: "i < nat n" and
    r: "region r = rs ! i" "impressions r = ims ! i" "uniques r = us ! i" "format r = fs ! i"
    by auto
  from i l have "rs ! i \<in> set rs" "ims ! i \<in> set ims" "us ! i \<in> set us" "fs ! i \<in> set fs"
    by simp_all
  with s ri ru assms(1) r show ?thesis by auto
qed

theorem make_demo_df_ranges_witness:
  "bounded_ok lcg \<and> make_demo_df lcg 3 (Some 7) 0 = Inr demo3 \<and> demo3 ! 1 \<in> set demo3
   \<and> 1000 \<le> impressions (demo3 ! 1) \<and> impressions (demo3 ! 1) < 50000
   \<and> 500 \<le> uniques (demo3 ! 1) \<and> uniques (demo3 ! 1) < 20000
   \<and> region (demo3 ! 1) \<in> set regions \<and> format (demo3 ! 1) \<in> set formats"
proof -
  have m: "demo3 ! 1 \<in> set demo3" by (simp add: demo3_def)
  from make_demo_df_ranges[OF lcg_bounded_ok lcg_demo_3 m] lcg_bounded_ok lcg_demo_3 m
  show ?thesis by blast
qed

subsection \<open>The divisor of \<open>freq\<close>\<close>

text \<open>
  C6. In every row of a generated table the divisor \<open>uniques\<close> is not zero, so the
  quotient behind \<open>freq\<close> never takes the branch of a zero divisor: \<open>freq\<close> is the
  finite double that the division and the rounding to two decimals give.
\<close>

theorem uniques_nonzero:
  assumes "bounded_ok np" "make_demo_df np n seed e = Inr df" "r \<in> set df"
  shows "uniques r \<noteq> 0
         \<and> freq r = Finite (around np 2 (fdiv np (impressions r) (uniques r)))"
proof -
  from assms(2) obtain rs ims us fs where
    lu: "length us = nat n" and
    ru: "bounded_ok np \<longrightarrow> (\<forall>v\<in>set us. 500 \<le> v \<and> v < 20000)" and
    df: "df = map (\<lambda>i. \<lparr>date = days_from_civil 2024 1 1 + int i, region = rs ! i,
                      impressions = ims ! i, uniques = us ! i, format = fs ! i,
                      freq = round_float np 2 (true_divide np (ims ! i) (us ! i))\<rparr>)
            [0..<nat n]"
    by (rule make_demo_df_rows)
  from assms(3) df obtain i where i: "i < nat n" and
    r: "impressions r = ims ! i" "uniques r = us ! i"
       "freq r = round_float np 2 (true_divide np (ims ! i) (us ! i))"
    by auto
  from i lu have "us ! i \<in> set us" by simp
  with ru assms(1) have "us ! i \<noteq> 0" by auto
  with r show ?thesis by (simp add: true_divide_def)
qed

theorem uniques_nonzero_witness:
  "bounded_ok lcg \<and> make_demo_df lcg 3 (Some 7) 0 = Inr demo3 \<and> demo3 ! 2 \<in> set demo3
   \<and> uniques (demo3 ! 2) \<noteq> 0
   \<and> freq (demo3 ! 2) = Finite (around lcg 2 (fdiv lcg (impressions (demo3 ! 2)) (uniques (demo3 ! 2))))"
proof -
  have m: "demo3 ! 2 \<in> set demo3" by (simp add: demo3_def)
  from uniques_nonzero[OF lcg_bounded_ok lcg_demo_3 m] lcg_bounded_ok lcg_demo_3 m
  show ?thesis by blast
qed

section \<open>The claims about the aggregations\<close>

subsection \<open>Grouping\<close>

lemma group_keys_set: "set (group_keys key df) = key ` set df"
  by (simp add: group_keys_def)

lemma group_keys_distinct: "distinct (group_keys key df)"
  by (simp add: group_keys_def)

lemma group_keys_sorted: "sorted (group_keys key df)"
  by (simp add: group_keys_def)

lemma sum_list_indicator:
  "distinct ks \<Longrightarrow> (\<Sum>k\<leftarrow>ks. if a = k then c else 0) = (if a \<in> set ks then c else (0::int))"
  by (induction ks) auto

lemma sum_list_groups:
  assumes "distinct ks" "key ` set df \<subseteq> set ks"
  shows "(\<Sum>k\<leftarrow>ks. sum_list (map v (filter (\<lambda>r. key r = k) df))) = (sum_list (map v df) :: int)"
  using assms(2)
proof (induction df)
  case Nil
  then show ?case by simp
next
  case (Cons r df)
  have split: "sum_list (map v (filter (\<lambda>x. key x = k) (r # df)))
      = (if key r = k then v r else 0) + sum_list (map v (filter (\<lambda>x. key x = k) df))" for k
    by simp
  from Cons.prems have in_ks: "key r \<in> set ks" and rest: "key ` set df \<subseteq> set ks" by auto
  have "(\<Sum>k\<leftarrow>ks. sum_list (map v (filter (\<lambda>x. key x = k) (r # df))))
      = (\<Sum>k\<leftarrow>ks. if key r = k then v r else 0)
        + (\<Sum>k\<leftarrow>ks. sum_list (map v (filter (\<lambda>x. key x = k) df)))"
    unfolding split by (simp add: sum_list_addf)
  also have "\<dots> = v r + sum_list (map v df)"
    using sum_list_indicator[OF assms(1), of "key r" "v r"] in_ks Cons.IH[OF rest] by simp
  finally show ?case by simp
qed

lemma agg_total: "sum_list (map (\<lambda>(k, i, u). i) (agg df)) = sum_list (map impressions df)"
proof -
  have "map (\<lambda>(k, i, u). i) (agg df)
      = map (\<lambda>k. sum_list (map impressions (filter (\<lambda>r. (region r, format r) = k) df)))
          (group_keys (\<lambda>r. (region r, format r)) df)"
    by (simp add: agg_def groupby_def)
  then show ?thesis
    using sum_list_groups[where ks = "group_keys (\<lambda>r. (region r, format r)) df"
        and key = "\<lambda>r. (region r, format r)" and df = df and v = impressions]
    by (simp add: group_keys_set group_keys_distinct)
qed

lemma filter_unique_key:
  "distinct (map key df) \<Longrightarrow> r \<in> set df \<Longrightarrow> filter (\<lambda>x. key x = key r) df = [r]"
proof (induction df)
  case Nil
  then show ?case by simp
next
  case (Cons a df)
  show ?case
  proof (cases "r = a")
    case True
    from Cons.prems(1) have "key a \<notin> key ` set df" by simp
    then have "\<forall>x\<in>set df. key x \<noteq> key a" by (metis imageI)
    then have "filter (\<lambda>x. key x = key a) df = []" by (simp add: filter_empty_conv)
    with True show ?thesis by simp
  next
    case False
    with Cons.prems have "r \<in> set df" "key a \<noteq> key r" by auto
    with Cons show ?thesis by simp
  qed
qed

lemma groupby_strict:
  assumes "sorted_wrt (<) (map key df)"
  shows "groupby key df = map (\<lambda>r. (key r, [r])) df"
proof -
  from assms have s: "sorted (map key df)" and d: "distinct (map key df)"
    by (simp_all add: strict_sorted_iff)
  have "group_keys key df = map key df"
    unfolding group_keys_def using s d by (simp add: sorted_sort_id)
  then have "groupby key df = map (\<lambda>r. (key r, filter (\<lambda>x. key x = key r) df)) df"
    by (simp add: groupby_def)
  also have "\<dots> = map (\<lambda>r. (key r, [r])) df"
    using filter_unique_key[OF d] by simp
  finally show ?thesis .
qed

text \<open>
  C8. For every generated table, the impressions of the rows of \<^verbatim>\<open>agg\<close>, one for each
  pair of region and format that occurs, add up to the impressions of the whole table.
\<close>

theorem agg_preserves_total:
  "make_demo_df np n seed e = Inr df \<Longrightarrow>
   sum_list (map (\<lambda>(k, i, u). i) (agg df)) = sum_list (map impressions df)"
  by (rule agg_total)

theorem agg_preserves_total_witness:
  "make_demo_df lcg 3 (Some 7) 0 = Inr demo3
   \<and> sum_list (map (\<lambda>(k, i, u). i) (agg demo3)) = sum_list (map impressions demo3)
   \<and> sum_list (map impressions demo3) = 91732"
  using agg_preserves_total[OF lcg_demo_3[of 0]] lcg_demo_3[of 0] by (simp add: demo3_def)

subsection \<open>Daily totals\<close>

lemma make_demo_df_date_col:
  assumes "make_demo_df np n seed e = Inr df"
  shows "length df = nat n \<and> map date df = map (\<lambda>i. days_from_civil 2024 1 1 + int i) [0..<nat n]"
proof -
  from assms obtain rs ims us fs where
    df: "df = map (\<lambda>i. \<lparr>date = days_from_civil 2024 1 1 + int i, region = rs ! i,
                      impressions = ims ! i, uniques = us ! i, format = fs ! i,
                      freq = round_float np 2 (true_divide np (ims ! i) (us ! i))\<rparr>)
            [0..<nat n]"
    by (rule make_demo_df_rows)
  show ?thesis by (simp add: df)
qed

lemma make_demo_df_dates_strict:
  assumes "make_demo_df np n seed e = Inr df"
  shows "sorted_wrt (<) (map date df)"
proof -
  from make_demo_df_date_col[OF assms]
  have "map date df = map (\<lambda>i. days_from_civil 2024 1 1 + int i) [0..<nat n]" by simp
  then show ?thesis by (simp add: sorted_wrt_iff_nth_less)
qed

text \<open>
  C10. Every date of a generated table occurs once, so the daily total is the table's
  own columns of dates and impressions: for every \<open>n \<ge> 1\<close> it has exactly \<open>n\<close> rows,
  in the order of the table, and the sum for a date is the impressions of the one row of
  that date.
\<close>

theorem daily_is_identity:
  assumes "make_demo_df np n seed e = Inr df" "1 \<le> n"
  shows "length (daily df) = nat n \<and> daily df = map (\<lambda>r. (date r, impressions r)) df"
proof -
  have "daily df = map (\<lambda>r. (date r, impressions r)) df"
    unfolding daily_def groupby_strict[OF make_demo_df_dates_strict[OF assms(1)]] by simp
  with make_demo_df_date_col[OF assms(1)] show ?thesis by simp
qed

theorem daily_is_identity_witness:
  "make_demo_df lcg 3 (Some 7) 0 = Inr demo3 \<and> (1::int) \<le> 3
   \<and> length (daily demo3) = nat 3
   \<and> daily demo3 = [(19723, 28571), (19724, 48640), (19725, 14521)]"
  using daily_is_identity[OF lcg_demo_3[of 0]] lcg_demo_3[of 0] by (simp add: demo3_def)

subsection \<open>The weekly forecast\<close>

lemma rint_div_one: "rint_div a 1 = a"
  by (simp add: rint_div_def)

lemma rolling_window_first: "xs \<noteq> [] \<Longrightarrow> rolling_window 4 0 xs = [xs ! 0]"
  by (cases xs) (simp_all add: rolling_window_def)

lemma drop_take_four:
  "j + 4 \<le> length xs \<Longrightarrow>
   drop j (take (j + 4) xs) = [xs ! j, xs ! (j + 1), xs ! (j + 2), xs ! (j + 3)]"
  by (auto simp: list_eq_iff_nth_eq nth_Cons' numeral_eq_Suc less_Suc_eq)

lemma rolling_window_full:
  assumes "3 \<le> i" "i < length xs"
  shows "rolling_window 4 i xs = [xs ! (i - 3), xs ! (i - 2), xs ! (i - 1), xs ! i]"
proof -
  from assms obtain j where j: "i = j + 3" by (metis le_add_diff_inverse2)
  with assms(2) have "j + 4 \<le> length xs" by simp
  from drop_take_four[OF this] j show ?thesis
    by (simp add: rolling_window_def numeral_eq_Suc)
qed

lemma rint_div_nearest:
  assumes "0 < b"
  shows "nearest_even (rint_div a b) a b"
proof -
  define q r where "q = a div b" and "r = a mod b"
  have a: "a = b * q + r" by (simp add: q_def r_def)
  have r: "0 \<le> r" "r < b" using assms by (simp_all add: r_def)
  consider "2 * r < b" | "b < 2 * r" | "2 * r = b" by linarith
  then show ?thesis
  proof cases
    case 1
    then have "rint_div a b = q" by (simp add: rint_div_def q_def r_def Let_def)
    moreover have "b * q - a = - r" using a by simp
    ultimately show ?thesis using 1 r by (simp add: nearest_even_def)
  next
    case 2
    then have "rint_div a b = q + 1" by (simp add: rint_div_def q_def r_def Let_def)
    moreover have "b * (q + 1) - a = b - r" using a by (simp add: algebra_simps)
    ultimately show ?thesis using 2 r by (simp add: nearest_even_def)
  next
    case 3
    show ?thesis
    proof (cases "even q")
      case True
      with 3 have "rint_div a b = q" by (simp add: rint_div_def q_def r_def Let_def)
      moreover have "b * q - a = - r" using a by simp
      ultimately show ?thesis using 3 r True by (simp add: nearest_even_def)
    next
      case False
      with 3 have "rint_div a b = q + 1" by (simp add: rint_div_def q_def r_def Let_def)
      moreover have "b * (q + 1) - a = b - r" using a by (simp add: algebra_simps)
      ultimately show ?thesis using 3 r False by (simp add: nearest_even_def)
    qed
  qed
qed

lemma nearest_even_unique:
  assumes "nearest_even f a 4" "nearest_even g a 4"
  shows "f = g"
proof -
  have bf: "\<bar>4 * f - a\<bar> \<le> 2" and bg: "\<bar>4 * g - a\<bar> \<le> 2"
    using assms by (simp_all add: nearest_even_def)
  have tf: "\<bar>4 * f - a\<bar> = 2 \<Longrightarrow> even f" and tg: "\<bar>4 * g - a\<bar> = 2 \<Longrightarrow> even g"
    using assms by (simp_all add: nearest_even_def)
  from bf bg consider "f = g" | "g = f + 1" | "f = g + 1" by linarith
  then show ?thesis
  proof cases
    case 1
    then show ?thesis .
  next
    case 2
    with bf bg have "\<bar>4 * f - a\<bar> = 2" "\<bar>4 * g - a\<bar> = 2" by linarith+
    with tf tg have "even f" "even g" by simp_all
    with 2 show ?thesis by simp
  next
    case 3
    with bf bg have "\<bar>4 * f - a\<bar> = 2" "\<bar>4 * g - a\<bar> = 2" by linarith+
    with tf tg have "even f" "even g" by simp_all
    with 3 show ?thesis by simp
  qed
qed

lemma sum_list_bounds:
  fixes xs :: "int list"
  shows "\<forall>x\<in>set xs. 0 \<le> x \<and> x \<le> c \<Longrightarrow> 0 \<le> sum_list xs \<and> sum_list xs \<le> c * int (length xs)"
  by (induction xs) (auto simp: algebra_simps)

lemma group_sum_bounds:
  fixes v :: "'r \<Rightarrow> int"
  assumes "\<forall>r\<in>set df. 0 \<le> v r \<and> v r \<le> c" "0 \<le> c"
  shows "0 \<le> sum_list (map v (filter P df))
         \<and> sum_list (map v (filter P df)) \<le> c * int (length df)"
proof -
  from assms(1) have "\<forall>x\<in>set (map v (filter P df)). 0 \<le> x \<and> x \<le> c" by auto
  from sum_list_bounds[OF this]
  have s: "0 \<le> sum_list (map v (filter P df))"
    "sum_list (map v (filter P df)) \<le> c * int (length (filter P df))" by simp_all
  have "int (length (filter P df)) \<le> int (length df)" by simp
  with assms(2) have "c * int (length (filter P df)) \<le> c * int (length df)"
    by (rule mult_left_mono[rotated])
  with s show ?thesis by linarith
qed

lemma generated_impressions:
  assumes "bounded_ok np" "make_demo_df np n seed e = Inr df" "r \<in> set df"
  shows "1000 \<le> impressions r \<and> impressions r < 50000"
proof -
  from assms(2) obtain rs ims us fs where
    l: "length ims = nat n" and
    ri: "bounded_ok np \<longrightarrow> (\<forall>v\<in>set ims. 1000 \<le> v \<and> v < 50000)" and
    df: "df = map (\<lambda>i. \<lparr>date = days_from_civil 2024 1 1 + int i, region = rs ! i,
                      impressions = ims ! i, uniques = us ! i, format = fs ! i,
                      freq = round_float np 2 (true_divide np (ims ! i) (us ! i))\<rparr>)
            [0..<nat n]"
    by (rule make_demo_df_rows)
  from assms(3) df obtain i where i: "i < nat n" and r: "impressions r = ims ! i" by auto
  from i l have "ims ! i \<in> set ims" by simp
  with ri assms(1) r show ?thesis by auto
qed

lemma weekly_bounds:
  assumes "bounded_ok np" "make_demo_df np n seed e = Inr df" "x \<in> set (map snd (weekly df))"
  shows "0 \<le> x \<and> x \<le> 4351450000"
proof -
  from assms(3) obtain k where
    x: "x = sum_list (map impressions (filter (\<lambda>r. isocalendar_week (date r) = k) df))"
    by (auto simp: weekly_def groupby_def)
  from generated_impressions[OF assms(1,2)]
  have "\<forall>r\<in>set df. 0 \<le> impressions r \<and> impressions r \<le> 50000" by force
  from group_sum_bounds[OF this, of "\<lambda>r. isocalendar_week (date r) = k"] x
  have b: "0 \<le> x" "x \<le> 50000 * int (length df)" by simp_all
  from make_demo_df_date_col[OF assms(2)] make_demo_df_periods[OF assms(2)]
  have "int (length df) \<le> 87029" by simp
  with b show ?thesis by simp
qed

lemma forecast_generated:
  assumes "bounded_ok np" "make_demo_df np n seed e = Inr df"
  shows "forecast df =
     Some (map (\<lambda>i. rint_div (sum_list (rolling_window 4 i (map snd (weekly df))))
                      (int (length (rolling_window 4 i (map snd (weekly df))))))
             [0..<length (weekly df)])"
proof -
  have "4 * \<bar>x\<bar> \<le> 2 ^ 50" if "x \<in> set (map snd (weekly df))" for x
    using weekly_bounds[OF assms that] by simp
  then show ?thesis by (simp add: forecast_def rolling_mean_round_def)
qed

text \<open>
  C7. For every generated table, in the weekly forecast (the impressions summed for
  each ISO week, the weeks in ascending order, then the mean of a trailing window of
  four weeks with at least one, rounded to the nearest integer), a forecast exists for
  every week; the forecast of the first week is that week's own sum, and the forecast of
  the fourth and of every later week is the mean of the four weekly sums that end with
  the week itself, rounded to the nearest integer, the even one when the mean lies half
  way between two. The generator is assumed to keep the contract of its bounded draw.
\<close>

theorem forecast_boundary:
  assumes "bounded_ok np" "make_demo_df np n seed e = Inr df" "i < length (weekly df)"
  shows "\<exists>fs. forecast df = Some fs \<and> length fs = length (weekly df)
           \<and> (i = 0 \<longrightarrow> fs ! i = snd (weekly df ! i))
           \<and> (3 \<le> i \<longrightarrow>
                nearest_even (fs ! i)
                  (snd (weekly df ! (i - 3)) + snd (weekly df ! (i - 2))
                    + snd (weekly df ! (i - 1)) + snd (weekly df ! i)) 4)"
proof -
  let ?xs = "map snd (weekly df)"
  let ?fs = "map (\<lambda>i. rint_div (sum_list (rolling_window 4 i ?xs))
                      (int (length (rolling_window 4 i ?xs)))) [0..<length (weekly df)]"
  from assms(3) have i: "i < length ?xs" by simp
  have some: "forecast df = Some ?fs" by (rule forecast_generated[OF assms(1,2)])
  have len: "length ?fs = length (weekly df)" by simp
  have nth: "?fs ! i =
      rint_div (sum_list (rolling_window 4 i ?xs)) (int (length (rolling_window 4 i ?xs)))"
    using assms(3) by simp
  have first: "?fs ! i = snd (weekly df ! i)" if "i = 0"
  proof -
    from i have "?xs \<noteq> []" by auto
    from rolling_window_first[OF this] that nth assms(3) show ?thesis
      by (simp add: rint_div_one)
  qed
  have full: "nearest_even (?fs ! i)
                  (snd (weekly df ! (i - 3)) + snd (weekly df ! (i - 2))
                    + snd (weekly df ! (i - 1)) + snd (weekly df ! i)) 4" if "3 \<le> i"
  proof -
    have w: "rolling_window 4 i ?xs = [?xs ! (i - 3), ?xs ! (i - 2), ?xs ! (i - 1), ?xs ! i]"
      by (rule rolling_window_full[OF that i])
    have "?fs ! i = rint_div (snd (weekly df ! (i - 3)) + snd (weekly df ! (i - 2))
                    + snd (weekly df ! (i - 1)) + snd (weekly df ! i)) 4"
      unfolding nth w using assms(3) that by (simp add: add.assoc)
    then show ?thesis using rint_div_nearest[of 4] by simp
  qed
  from some len first full show ?thesis by blast
qed

lemma lcg_demo_22: "make_demo_df lcg 22 (Some 7) e = Inr demo22"
  unfolding demo22_def by code_simp

lemma isocalendar_week_samples:
  "isocalendar_week 19723 = 1" "isocalendar_week 19724 = 1" "isocalendar_week 19725 = 1"
  "isocalendar_week 19726 = 1" "isocalendar_week 19727 = 1" "isocalendar_week 19728 = 1"
  "isocalendar_week 19729 = 1" "isocalendar_week 19730 = 2" "isocalendar_week 19731 = 2"
  "isocalendar_week 19732 = 2" "isocalendar_week 19733 = 2" "isocalendar_week 19734 = 2"
  "isocalendar_week 19735 = 2" "isocalendar_week 19736 = 2" "isocalendar_week 19737 = 3"
  "isocalendar_week 19738 = 3" "isocalendar_week 19739 = 3" "isocalendar_week 19740 = 3"
  "isocalendar_week 19741 = 3" "isocalendar_week 19742 = 3" "isocalendar_week 19743 = 3"
  "isocalendar_week 19744 = 4"
  by code_simp+

lemma weekly_demo22:
  "weekly demo22 = [(1, 201027), (2, 232780), (3, 148625), (4, 15675)]"
  by (simp add: weekly_def groupby_def group_keys_def demo22_def isocalendar_week_samples)

lemma forecast_demo22: "forecast demo22 = Some [201027, 216904, 194144, 149527]"
  unfolding forecast_def weekly_demo22 by code_simp

theorem forecast_boundary_witness:
  "bounded_ok lcg \<and> make_demo_df lcg 22 (Some 7) 0 = Inr demo22
   \<and> (3::nat) < length (weekly demo22)
   \<and> forecast demo22 = Some [201027, 216904, 194144, 149527]
   \<and> snd (weekly demo22 ! 0) = 201027
   \<and> nearest_even 149527 (201027 + 232780 + 148625 + 15675) 4"
  using forecast_boundary[OF lcg_bounded_ok lcg_demo_22[of 0], of 3]
    forecast_boundary[OF lcg_bounded_ok lcg_demo_22[of 0], of 0]
    lcg_bounded_ok lcg_demo_22[of 0]
  by (simp add: weekly_demo22 forecast_demo22)

subsection \<open>Hourly means\<close>

lemma zip_upt_nth: "zip [0..<length xs] xs = map (\<lambda>i. (i, xs ! i)) [0..<length xs]"
proof (rule nth_equalityI)
  show "length (zip [0..<length xs] xs) = length (map (\<lambda>i. (i, xs ! i)) [0..<length xs])"
    by simp
next
  fix i assume "i < length (zip [0..<length xs] xs)"
  then show "zip [0..<length xs] xs ! i = map (\<lambda>i. (i, xs ! i)) [0..<length xs] ! i"
    by simp
qed

lemma hours_image: "(\<lambda>i. i mod 24) ` {0..<n} = {0..<min 24 n}" for n :: nat
proof (intro set_eqI iffI)
  fix h assume "h \<in> (\<lambda>i. i mod 24) ` {0..<n}"
  then obtain i where i: "i < n" "h = i mod 24" by auto
  have "i mod 24 < 24" by simp
  moreover have "i mod 24 \<le> i" by simp
  ultimately show "h \<in> {0..<min 24 n}" using i by simp
next
  fix h assume "h \<in> {0..<min 24 n}"
  then have "h < 24" "h < n" by simp_all
  then have "h mod 24 = h" "h \<in> {0..<n}" by simp_all
  then show "h \<in> (\<lambda>i. i mod 24) ` {0..<n}" by (metis imageI)
qed

lemma hour_keys:
  "group_keys (\<lambda>(i, r). i mod 24) (zip [0..<length df] df) = [0..<min 24 (length df)]"
proof -
  have "(\<lambda>(i, r). i mod 24) ` set (zip [0..<length df] df) = (\<lambda>i. i mod 24) ` {0..<length df}"
    unfolding zip_upt_nth by (auto simp: image_iff)
  then have "set (group_keys (\<lambda>(i, r). i mod 24) (zip [0..<length df] df))
      = set [0..<min 24 (length df)]"
    by (simp add: group_keys_set hours_image)
  then show ?thesis
    by (intro sorted_distinct_set_unique) (simp_all add: group_keys_sorted group_keys_distinct)
qed

lemma hour_group:
  "map (\<lambda>(i, r). uniques r)
     (filter (\<lambda>p. (case p of (i, r) \<Rightarrow> i mod 24) = h) (zip [0..<length df] df))
     = hour_uniques h df"
  unfolding zip_upt_nth hour_uniques_def by (simp add: filter_map comp_def)

lemma hour_uniques_nonempty: "h < min 24 (length df) \<Longrightarrow> hour_uniques h df \<noteq> []"
proof -
  assume "h < min 24 (length df)"
  then have "h \<in> set (filter (\<lambda>i. i mod 24 = h) [0..<length df])" by simp
  then have "filter (\<lambda>i. i mod 24 = h) [0..<length df] \<noteq> []" by force
  then show ?thesis by (simp add: hour_uniques_def)
qed

lemma hourly_eq:
  "hourly np df = map (\<lambda>h. (h, mean np (hour_uniques h df))) [0..<min 24 (length df)]"
  by (simp add: hourly_def groupby_def hour_keys hour_group)

text \<open>
  C9. The hourly mean groups the rows by their index modulo 24 and gives, for each hour
  that has a row, the mean of the uniques of its rows. The hours of the result are the
  hours from 0 to 23 that have a row, in ascending order, so an hour with no row is
  absent and not filled with zero; the table of the program has 200 rows, and its
  result has exactly the 24 hours from 0 to 23.
\<close>

theorem hourly_buckets:
  "map fst (hourly np df) = [0..<min 24 (length df)]
   \<and> (\<forall>h<min 24 (length df).
         snd (hourly np df ! h) =
           Finite (fdiv np (sum_list (hour_uniques h df)) (int (length (hour_uniques h df)))))
   \<and> (load_data np e = Inr df \<longrightarrow> map fst (hourly np df) = [0..<24])"
proof -
  have keys: "map fst (hourly np df) = [0..<min 24 (length df)]"
    by (simp add: hourly_eq comp_def)
  have vals: "snd (hourly np df ! h) =
           Finite (fdiv np (sum_list (hour_uniques h df)) (int (length (hour_uniques h df))))"
    if "h < min 24 (length df)" for h
    using that hour_uniques_nonempty[OF that] by (simp add: hourly_eq mean_def true_divide_def)
  have prog: "map fst (hourly np df) = [0..<24]" if "load_data np e = Inr df"
  proof -
    from that make_demo_df_date_col[of np 200 "Some 7" e df] have "length df = 200"
      by (simp add: load_data_def)
    with keys show ?thesis by simp
  qed
  from keys vals prog show ?thesis by blast
qed

theorem hourly_buckets_witness:
  "map fst (hourly lcg demo3) = [0, 1, 2]
   \<and> (1::nat) < min 24 (length demo3)
   \<and> snd (hourly lcg demo3 ! 1) = Finite (11087, 1)
   \<and> (\<exists>df. load_data lcg 0 = Inr df \<and> map fst (hourly lcg df) = [0..<24])"
proof -
  from make_demo_df_ok[OF lcg_bounded_ok, of 200 "Some 7" 0]
  obtain df where df: "load_data lcg 0 = Inr df" by (auto simp: load_data_def seed_ok_def)
  from hourly_buckets[of lcg df 0] df
  have a: "\<exists>df. load_data lcg 0 = Inr df \<and> map fst (hourly lcg df) = [0..<24]" by blast
  have l: "length demo3 = 3" by (simp add: demo3_def)
  have u: "hour_uniques 1 demo3 = [11087]" unfolding demo3_def hour_uniques_def by code_simp
  from hourly_buckets[of lcg demo3 0] l u
  have "map fst (hourly lcg demo3) = [0..<3] \<and> snd (hourly lcg demo3 ! 1) = Finite (11087, 1)"
    by (simp add: lcg_def)
  moreover have "[0..<3] = [0, 1, 2::nat]" by (simp add: upt_rec)
  ultimately show ?thesis using a l by simp
qed

end
